theory Spec2Isabelle
  imports Main "HOL-Library.Word"
begin

section \<open>GPSExtractor/extractGPS.js: the buffer loader\<close>

text \<open>
  The script has two parts: \<^verbatim>\<open>bufferAppender\<close>, which feeds a video file to the
  decoder block by block, and the top-level driver, which starts one extraction per
  input file, waits for all of them and writes one geojson file.

  Bytes are 8-bit words, paths are strings, and the JavaScript number \<^verbatim>\<open>bytesRead\<close>
  is a natural number (it only ever counts bytes of one file).
\<close>

type_synonym byte = "8 word"
type_synonym path = string

text \<open>
  A JavaScript error value. \<open>IOError\<close> is the system error Node's \<^verbatim>\<open>fs\<close> module
  reports (its argument is the code, such as EIO or ENOENT); \<open>Error\<close> is any other
  error.
\<close>

datatype err = IOError string | Error string

text \<open>
  \<^verbatim>\<open>arrayBuffer\<close> of the \<^verbatim>\<open>'data'\<close> handler: the bytes of the chunk
  (\<^verbatim>\<open>new Uint8Array(chunk).buffer\<close> copies them) and the \<^verbatim>\<open>fileStart\<close> property
  the handler sets on it.
\<close>

record array_buffer =
  bytes :: "byte list"
  fileStart :: nat

text \<open>The two methods of \<^verbatim>\<open>mp4boxFile\<close> that the loader calls.\<close>

datatype mp4box_call = AppendBuffer array_buffer | Flush

text \<open>The events a Node readable stream emits.\<close>

datatype stream_event = Data "byte list" | End | StreamError err

text \<open>
  The state of one loader: the variable \<^verbatim>\<open>bytesRead\<close>, the calls \<^verbatim>\<open>mp4boxFile\<close>
  has received so far (oldest first), and the error thrown out of the loader, if any.
\<close>

record loader =
  bytesRead :: nat
  mp4boxFile :: "mp4box_call list"
  thrown :: "err option"

definition highWaterMark :: nat where
  "highWaterMark = 4 * 1024 * 1024"

text \<open>\<^verbatim>\<open>stream.on('end', () => { mp4boxFile.flush(); })\<close>\<close>

definition on_end :: "loader \<Rightarrow> loader" where
  "on_end l = l\<lparr>mp4boxFile := mp4boxFile l @ [Flush]\<rparr>"

text \<open>
  \<^verbatim>\<open>stream.on('data', chunk => { ... })\<close>: the buffer gets the current value of
  \<^verbatim>\<open>bytesRead\<close> as its \<^verbatim>\<open>fileStart\<close>, is appended, and \<^verbatim>\<open>bytesRead\<close> grows by
  the length of the chunk.
\<close>

definition on_data :: "byte list \<Rightarrow> loader \<Rightarrow> loader" where
  "on_data chunk l =
     (let arrayBuffer = \<lparr>bytes = chunk, fileStart = bytesRead l\<rparr>
      in l\<lparr>mp4boxFile := mp4boxFile l @ [AppendBuffer arrayBuffer],
            bytesRead := bytesRead l + length chunk\<rparr>)"

text \<open>
  The stream delivers its events to the registered listeners, in order. The loader
  registers listeners for \<^verbatim>\<open>'end'\<close> and \<^verbatim>\<open>'data'\<close> only. An \<^verbatim>\<open>'error'\<close> event
  with no listener makes Node's event emitter throw the error: it is an uncaught
  exception, and nothing of the loader runs after it.
\<close>

fun emit :: "stream_event list \<Rightarrow> loader \<Rightarrow> loader" where
  "emit [] l = l"
| "emit (Data chunk # evs) l = emit evs (on_data chunk l)"
| "emit (End # evs) l = emit evs (on_end l)"
| "emit (StreamError e # evs) l = l\<lparr>thrown := Some e\<rparr>"

subsection \<open>The file system under the loader\<close>

text \<open>
  A file has its contents and, when a read of it fails, the number of reads that
  succeed before the failing one and the code of the error. A path with no file
  cannot be opened.
\<close>

record video_file =
  contents :: "byte list"
  failing_read :: "(nat \<times> string) option"

type_synonym filesystem = "path \<Rightarrow> video_file option"

text \<open>
  Node's \<^verbatim>\<open>fs.ReadStream\<close> reads the file sequentially, asking for \<open>hwm\<close> bytes
  at a time; a read returns that many bytes, or the rest of the file when less is
  left.
\<close>

function read_blocks :: "nat \<Rightarrow> byte list \<Rightarrow> byte list list" where
  "read_blocks hwm bs =
     (if hwm = 0 \<or> bs = [] then []
      else take hwm bs # read_blocks hwm (drop hwm bs))"
  by pat_completeness auto
termination
  by (relation "measure (\<lambda>(hwm, bs). length bs)") auto

declare read_blocks.simps [simp del]

text \<open>
  \<^verbatim>\<open>fs.createReadStream(path, { highWaterMark: hwm })\<close> followed by
  \<^verbatim>\<open>stream.resume()\<close>: one \<^verbatim>\<open>'data'\<close> event per block read, then \<^verbatim>\<open>'end'\<close>; when
  the file cannot be opened or a read fails, an \<^verbatim>\<open>'error'\<close> event takes the place of
  the rest.
\<close>

definition createReadStream :: "filesystem \<Rightarrow> path \<Rightarrow> nat \<Rightarrow> stream_event list" where
  "createReadStream fs path hwm =
     (case fs path of
        None \<Rightarrow> [StreamError (IOError ''ENOENT'')]
      | Some f \<Rightarrow>
          (case failing_read f of
             None \<Rightarrow> map Data (read_blocks hwm (contents f)) @ [End]
           | Some (k, code) \<Rightarrow>
               map Data (take k (read_blocks hwm (contents f))) @ [StreamError (IOError code)]))"

text \<open>
  \<^verbatim>\<open>bufferAppender(path)\<close> is the function the decoder calls with its
  \<^verbatim>\<open>mp4boxFile\<close>; run on a file system it yields the final state of the loader.
\<close>

definition bufferAppender :: "path \<Rightarrow> filesystem \<Rightarrow> loader" where
  "bufferAppender path fs =
     emit (createReadStream fs path highWaterMark)
       \<lparr>bytesRead = 0, mp4boxFile = [], thrown = None\<rparr>"

text \<open>The blocks of the \<^verbatim>\<open>appendBuffer\<close> calls, in call order.\<close>

fun blocks_of :: "mp4box_call list \<Rightarrow> byte list list" where
  "blocks_of [] = []"
| "blocks_of (AppendBuffer b # cs) = bytes b # blocks_of cs"
| "blocks_of (Flush # cs) = blocks_of cs"

section \<open>GPSExtractor/extractGPS.js: the driver\<close>

text \<open>
  The outcome of a function call: it throws, or it returns a value.
\<close>

datatype 'a call_result = Throws err | Returns 'a

text \<open>
  A promise is given by the outcome it settles with, once it does. When it settles
  (if ever) is decided by the event loop, below.
\<close>

datatype 'a settled = Fulfilled 'a | Rejected err

type_synonym 'a promise = "'a settled"

text \<open>The options object \<^verbatim>\<open>{ preset: "geojson" }\<close>.\<close>

record options =
  preset :: string

text \<open>
  What the script takes from outside. \<open>'p\<close> is the telemetry payload the decoder
  extracts from one file, \<open>'t\<close> the track the interpreter returns.
  \<^item> \<open>basename_filename\<close>: the value of \<^verbatim>\<open>require('path').basename(__filename)\<close>;
  \<^item> \<open>gpmfExtract\<close>: the decoder of the gpmf-extract library, called with a loader: the
    call throws, or returns the promise of a payload;
  \<^item> \<open>goproTelemetry\<close>: the interpreter of the gopro-telemetry library, called with
    the payloads and the options: the outcome its promise settles with, \<open>None\<close>
    when it never settles;
  \<^item> \<open>JSON_stringify\<close>: \<^verbatim>\<open>JSON.stringify(value, replacer, space)\<close>, the replacer
    \<^verbatim>\<open>null\<close> being \<open>None\<close>.
\<close>

record ('p, 't) env =
  basename_filename :: string
  gpmfExtract :: "(filesystem \<Rightarrow> loader) \<Rightarrow> 'p promise call_result"
  goproTelemetry :: "'p list \<Rightarrow> options \<Rightarrow> 't settled option"
  JSON_stringify :: "'t \<Rightarrow> unit option \<Rightarrow> nat \<Rightarrow> string"

text \<open>
  The observable state of the process:
  \<^item> \<open>stdout\<close>, \<open>stderr\<close>: what \<^verbatim>\<open>console.log\<close> and \<^verbatim>\<open>console.error\<close> printed;
  \<^item> \<open>exit_code\<close>: the argument of \<^verbatim>\<open>process.exit\<close>, once called;
  \<^item> \<open>promises\<close>: the array \<^verbatim>\<open>promises\<close> handed to \<^verbatim>\<open>Promise.all\<close>;
  \<^item> \<open>all_values\<close>, \<open>all_state\<close>: the promise \<^verbatim>\<open>Promise.all(promises)\<close>: the values
    collected so far, by index, and its outcome once settled;
  \<^item> \<open>interpreter_calls\<close>: the calls of \<^verbatim>\<open>goproTelemetry\<close>, with their arguments;
  \<^item> \<open>writes\<close>: the calls of \<^verbatim>\<open>fs.writeFileSync\<close>: path and data;
  \<^item> \<open>unhandled\<close>: the rejections that no handler receives.
\<close>

record 'p world =
  stdout :: "string list"
  stderr :: "err list"
  exit_code :: "nat option"
  promises :: "'p promise list"
  all_values :: "'p option list"
  all_state :: "'p list settled option"
  interpreter_calls :: "('p list \<times> options) list"
  writes :: "(path \<times> string) list"
  unhandled :: "err list"

definition initial :: "'p world" where
  "initial = \<lparr>stdout = [], stderr = [], exit_code = None, promises = [],
     all_values = [], all_state = None, interpreter_calls = [], writes = [],
     unhandled = []\<rparr>"

text \<open>\<^verbatim>\<open>process.argv\<close> holds the node binary, the script, then the arguments.\<close>

definition usage :: "('p, 't) env \<Rightarrow> string" where
  "usage env = ''Usage: '' @ basename_filename env @
     '' <geojson_out_file> <video_file_name> <video_file_name>...''"

definition geojsonOutFile :: "string list \<Rightarrow> path" where
  "geojsonOutFile argv = argv ! 2"

definition files :: "string list \<Rightarrow> path list" where
  "files argv = drop 3 argv"

text \<open>
  The loop \<^verbatim>\<open>for (const file of files) promises.push(gpmfExtract(bufferAppender(file)))\<close>.
  It stands in the \<^verbatim>\<open>try\<close> block: a call that throws ends the loop. \<open>pushed\<close> is
  the array \<^verbatim>\<open>promises\<close> as filled so far.
\<close>

fun push_promises ::
  "('p, 't) env \<Rightarrow> path list \<Rightarrow> 'p promise list \<Rightarrow> 'p promise list call_result" where
  "push_promises env [] pushed = Returns pushed"
| "push_promises env (file # rest) pushed =
     (case gpmfExtract env (bufferAppender file) of
        Throws e \<Rightarrow> Throws e
      | Returns p \<Rightarrow> push_promises env rest (pushed @ [p]))"

text \<open>
  The two callbacks of lines 50 to 54, run with the array \<^verbatim>\<open>extracted\<close>: the
  interpreter is called with the preset geojson; when its promise is fulfilled with
  \<^verbatim>\<open>telemetry\<close>, the file is written. A rejection has no handler. (A call of the
  interpreter that throws rejects the promise \<^verbatim>\<open>then\<close> returned, which has no
  handler either: it is taken as a rejection. \<open>writes\<close> records the calls of
  \<^verbatim>\<open>fs.writeFileSync\<close>.)
\<close>

definition then_extracted ::
  "('p, 't) env \<Rightarrow> string list \<Rightarrow> 'p list \<Rightarrow> 'p world \<Rightarrow> 'p world" where
  "then_extracted env argv extracted w =
     (let opts = \<lparr>preset = ''geojson''\<rparr>;
          w1 = w\<lparr>interpreter_calls := interpreter_calls w @ [(extracted, opts)]\<rparr>
      in case goproTelemetry env extracted opts of
           None \<Rightarrow> w1
         | Some (Rejected e) \<Rightarrow> w1\<lparr>unhandled := unhandled w1 @ [e]\<rparr>
         | Some (Fulfilled telemetry) \<Rightarrow>
             w1\<lparr>writes := writes w1 @
               [(geojsonOutFile argv, JSON_stringify env telemetry None 2)]\<rparr>)"

text \<open>
  \<^verbatim>\<open>Promise.all(promises).then(...)\<close>: the joint promise starts with no value
  collected; over an empty array it is fulfilled at once.
\<close>

definition Promise_all_then ::
  "('p, 't) env \<Rightarrow> string list \<Rightarrow> 'p promise list \<Rightarrow> 'p world" where
  "Promise_all_then env argv ps =
     (let w = initial\<lparr>promises := ps, all_values := replicate (length ps) None\<rparr>
      in if ps = [] then then_extracted env argv [] (w\<lparr>all_state := Some (Fulfilled [])\<rparr>)
         else w)"

text \<open>
  The synchronous part of the script: the argument check, the two constants, and the
  \<^verbatim>\<open>try\<close> block with its \<^verbatim>\<open>catch\<close>, which prints the error and goes on to the
  end of the script. (The promises started before the call that threw are local to the
  block and have no handler of the script; they are not followed.)
\<close>

definition main :: "('p, 't) env \<Rightarrow> string list \<Rightarrow> 'p world" where
  "main env argv =
     (if length argv < 4 then initial\<lparr>stdout := [usage env], exit_code := Some 1\<rparr>
      else (case push_promises env (files argv) [] of
              Throws e \<Rightarrow> initial\<lparr>stderr := [e]\<rparr>
            | Returns ps \<Rightarrow> Promise_all_then env argv ps))"

text \<open>
  The event loop: the promise with index \<open>i\<close> settles. Nothing happens after the
  process has exited, for an index that is no promise, or once the joint promise is
  settled. A rejection rejects the joint promise, which has no rejection handler. A
  value is stored at its index; when no value is missing the joint promise is fulfilled
  with the values in index order and the callbacks run.
\<close>

definition settle :: "('p, 't) env \<Rightarrow> string list \<Rightarrow> 'p world \<Rightarrow> nat \<Rightarrow> 'p world" where
  "settle env argv w i =
     (if exit_code w \<noteq> None \<or> length (promises w) \<le> i \<or> all_state w \<noteq> None then w
      else (case promises w ! i of
              Rejected e \<Rightarrow> w\<lparr>all_state := Some (Rejected e), unhandled := unhandled w @ [e]\<rparr>
            | Fulfilled v \<Rightarrow>
                (let vs = (all_values w)[i := Some v]
                 in if None \<in> set vs then w\<lparr>all_values := vs\<rparr>
                    else then_extracted env argv (map the vs)
                           (w\<lparr>all_values := vs, all_state := Some (Fulfilled (map the vs))\<rparr>))))"

text \<open>
  A run of the script: the synchronous part, then the extraction promises settle in
  the order \<open>order\<close> (a list of indices into \<^verbatim>\<open>promises\<close>; a promise that is not in
  the list has not settled).
\<close>

definition run :: "('p, 't) env \<Rightarrow> string list \<Rightarrow> nat list \<Rightarrow> 'p world" where
  "run env argv order = foldl (settle env argv) (main env argv) order"

section \<open>Auxiliary definitions\<close>

text \<open>
  The buffers the \<^verbatim>\<open>'data'\<close> handler builds from the chunks \<open>cs\<close> when
  \<^verbatim>\<open>bytesRead\<close> is \<open>off\<close> before the first of them.
\<close>

fun buffers :: "nat \<Rightarrow> byte list list \<Rightarrow> array_buffer list" where
  "buffers off [] = []"
| "buffers off (c # cs) = \<lparr>bytes = c, fileStart = off\<rparr> # buffers (off + length c) cs"

text \<open>
  A file system for the examples: the two chunks of one recording, both readable; an
  empty file; a file of one full block and one more byte whose second read fails; and
  the same file readable. Every other path is missing.
\<close>

definition sample_fs :: filesystem where
  "sample_fs = (\<lambda>p.
     if p = ''GX010001.MP4'' then Some \<lparr>contents = [71, 80, 77], failing_read = None\<rparr>
     else if p = ''GX020001.MP4'' then Some \<lparr>contents = [68, 70], failing_read = None\<rparr>
     else if p = ''GX010002.MP4'' then Some \<lparr>contents = [], failing_read = None\<rparr>
     else if p = ''GX010003.MP4''
       then Some \<lparr>contents = replicate highWaterMark 0 @ [1], failing_read = Some (1, ''EIO'')\<rparr>
     else if p = ''GX010004.MP4''
       then Some \<lparr>contents = replicate highWaterMark 0 @ [1], failing_read = None\<rparr>
     else None)"

text \<open>
  The value a settled promise carries, if it was fulfilled.
\<close>

fun value_of :: "'a settled \<Rightarrow> 'a option" where
  "value_of (Fulfilled v) = Some v"
| "value_of (Rejected e) = None"

text \<open>
  An invocation has succeeded, once the promises in \<open>order\<close> have settled, when every
  extraction was started, all of them have settled and were fulfilled, and the
  interpreter's promise was fulfilled.
\<close>

definition succeeded :: "('p, 't) env \<Rightarrow> string list \<Rightarrow> nat list \<Rightarrow> bool" where
  "succeeded env argv order =
     (case push_promises env (files argv) [] of
        Throws e \<Rightarrow> False
      | Returns ps \<Rightarrow>
          list_all (\<lambda>i. i \<in> set order) [0..<length ps] \<and>
          list_all (\<lambda>p. value_of p \<noteq> None) ps \<and>
          (case goproTelemetry env (map (the \<circ> value_of) ps) \<lparr>preset = ''geojson''\<rparr> of
             Some (Fulfilled telemetry) \<Rightarrow> True
           | _ \<Rightarrow> False))"

text \<open>
  What holds of the process after the promises in \<open>order\<close> have settled, \<open>ps\<close> being
  the array handed to \<^verbatim>\<open>Promise.all\<close>: while the joint promise is pending no
  rejection has arrived and the values collected are those of the promises settled so
  far; once it is rejected nothing was interpreted or written; once it is fulfilled
  every promise has settled and the callbacks have run on the values in index order.
\<close>

definition joint_inv ::
  "('p, 't) env \<Rightarrow> string list \<Rightarrow> 'p promise list \<Rightarrow> nat list \<Rightarrow> 'p world \<Rightarrow> bool" where
  "joint_inv env argv ps order w =
     (case all_state w of
        None \<Rightarrow>
          w = initial\<lparr>promises := ps, all_values := all_values w\<rparr> \<and>
          length (all_values w) = length ps \<and>
          None \<in> set (all_values w) \<and>
          (\<forall>j<length ps. \<forall>v. all_values w ! j = Some v \<longleftrightarrow> j \<in> set order \<and> ps ! j = Fulfilled v) \<and>
          (\<forall>j\<in>set order. j < length ps \<longrightarrow> (\<exists>v. ps ! j = Fulfilled v))
      | Some (Rejected e) \<Rightarrow>
          promises w = ps \<and> exit_code w = None \<and> stdout w = [] \<and> stderr w = [] \<and>
          interpreter_calls w = [] \<and> writes w = [] \<and> unhandled w = [e] \<and>
          (\<exists>j\<in>set order. j < length ps \<and> ps ! j = Rejected e)
      | Some (Fulfilled vs) \<Rightarrow>
          length vs = length ps \<and>
          (\<forall>j<length ps. j \<in> set order \<and> ps ! j = Fulfilled (vs ! j)) \<and>
          w = then_extracted env argv vs
                (initial\<lparr>promises := ps, all_values := map Some vs,
                   all_state := Some (Fulfilled vs)\<rparr>))"

text \<open>
  An environment for the examples: the decoder's payload is the number of bytes the
  loader appended, and a file with no bytes is rejected; the interpreter adds the
  payloads up; the serializer prints the indentation, then one dot per unit.
\<close>

definition sample_env :: "(nat, nat) env" where
  "sample_env = \<lparr>
     basename_filename = ''extractGPS.js'',
     gpmfExtract = (\<lambda>load.
       let blocks = blocks_of (mp4boxFile (load sample_fs))
       in if blocks = [] then Returns (Rejected (Error ''Track not found''))
          else Returns (Fulfilled (length (concat blocks)))),
     goproTelemetry = (\<lambda>extracted opts.
       if preset opts = ''geojson'' then Some (Fulfilled (sum_list extracted))
       else Some (Rejected (Error ''unknown preset''))),
     JSON_stringify = (\<lambda>telemetry replacer space.
       replicate space CHR '' '' @ replicate telemetry CHR ''.'')\<rparr>"

definition sample_argv :: "string list" where
  "sample_argv = [''node'', ''extractGPS.js'', ''0001.geojson'', ''GX010001.MP4'', ''GX020001.MP4'']"

definition failing_argv :: "string list" where
  "failing_argv = [''node'', ''extractGPS.js'', ''0002.geojson'', ''GX010001.MP4'', ''GX010002.MP4'']"

section \<open>The buffer loader: properties\<close>

lemma emit_Data:
  "emit (map Data cs @ evs) l =
     emit evs (l\<lparr>mp4boxFile := mp4boxFile l @ map AppendBuffer (buffers (bytesRead l) cs),
                 bytesRead := bytesRead l + length (concat cs)\<rparr>)"
  by (induction cs arbitrary: l) (simp_all add: on_data_def Let_def add.assoc)

lemma blocks_of_map_AppendBuffer: "blocks_of (map AppendBuffer bufs) = map bytes bufs"
  by (induction bufs) simp_all

lemma blocks_of_append: "blocks_of (xs @ ys) = blocks_of xs @ blocks_of ys"
  by (induction xs rule: blocks_of.induct) simp_all

lemma map_bytes_buffers: "map bytes (buffers off cs) = cs"
  by (induction cs arbitrary: off) simp_all

lemma length_buffers: "length (buffers off cs) = length cs"
  by (induction cs arbitrary: off) simp_all

lemma fileStart_buffers:
  "k < length cs \<Longrightarrow> fileStart (buffers off cs ! k) = off + length (concat (take k cs))"
proof (induction cs arbitrary: off k)
  case Nil
  then show ?case by simp
next
  case (Cons c cs)
  then show ?case by (cases k) simp_all
qed

lemma fileStart_buffers_ge: "b \<in> set (buffers off cs) \<Longrightarrow> off \<le> fileStart b"
proof (induction cs arbitrary: off)
  case Nil
  then show ?case by simp
next
  case (Cons c cs)
  then show ?case by (auto dest: Cons.IH)
qed

lemma fileStart_buffers_increasing:
  "[] \<notin> set cs \<Longrightarrow> sorted_wrt (<) (map fileStart (buffers off cs))"
proof (induction cs arbitrary: off)
  case Nil
  then show ?case by simp
next
  case (Cons c cs)
  have "off < fileStart b" if "b \<in> set (buffers (off + length c) cs)" for b
    using fileStart_buffers_ge[OF that] Cons.prems by (cases c) simp_all
  with Cons show ?case by simp
qed

lemma buffers_take: "buffers off (take k cs) = take k (buffers off cs)"
proof (induction cs arbitrary: off k)
  case Nil
  then show ?case by simp
next
  case (Cons c cs)
  then show ?case by (cases k) simp_all
qed

lemma concat_read_blocks: "0 < hwm \<Longrightarrow> concat (read_blocks hwm bs) = bs"
proof (induction hwm bs rule: read_blocks.induct)
  case (1 hwm bs)
  then show ?case
    by (subst read_blocks.simps) simp
qed

lemma read_blocks_sizes:
  "b \<in> set (read_blocks hwm bs) \<Longrightarrow> 0 < length b \<and> length b \<le> hwm"
proof (induction hwm bs rule: read_blocks.induct)
  case (1 hwm bs)
  show ?case
  proof (cases "hwm = 0 \<or> bs = []")
    case True
    with "1.prems" show ?thesis by (simp add: read_blocks.simps)
  next
    case False
    then have "read_blocks hwm bs = take hwm bs # read_blocks hwm (drop hwm bs)"
      by (subst read_blocks.simps) simp
    with "1.prems" have "b = take hwm bs \<or> b \<in> set (read_blocks hwm (drop hwm bs))"
      by simp
    then show ?thesis
    proof
      assume "b = take hwm bs"
      with False show ?thesis by simp
    next
      assume "b \<in> set (read_blocks hwm (drop hwm bs))"
      then show ?thesis by (rule "1.IH"[OF False])
    qed
  qed
qed

lemma read_blocks_butlast:
  "b \<in> set (butlast (read_blocks hwm bs)) \<Longrightarrow> length b = hwm"
proof (induction hwm bs rule: read_blocks.induct)
  case (1 hwm bs)
  show ?case
  proof (cases "hwm = 0 \<or> bs = []")
    case True
    with "1.prems" show ?thesis by (simp add: read_blocks.simps)
  next
    case False
    then have eq: "read_blocks hwm bs = take hwm bs # read_blocks hwm (drop hwm bs)"
      by (subst read_blocks.simps) simp
    show ?thesis
    proof (cases "read_blocks hwm (drop hwm bs) = []")
      case True
      with "1.prems" eq show ?thesis by simp
    next
      case ne: False
      then have "drop hwm bs \<noteq> []"
        by (auto simp: read_blocks.simps)
      then have "length (take hwm bs) = hwm" by simp
      with "1.prems" eq ne "1.IH"[OF False] show ?thesis by auto
    qed
  qed
qed


lemma highWaterMark_pos: "0 < highWaterMark"
  by (simp add: highWaterMark_def)

lemma bufferAppender_readable:
  assumes "fs path = Some f" and "failing_read f = None"
  shows "bufferAppender path fs =
     \<lparr>bytesRead = length (contents f),
      mp4boxFile = map AppendBuffer (buffers 0 (read_blocks highWaterMark (contents f))) @ [Flush],
      thrown = None\<rparr>"
  using assms
  by (simp add: bufferAppender_def createReadStream_def emit_Data on_end_def
      concat_read_blocks highWaterMark_pos)

lemma bufferAppender_failing:
  assumes "fs path = Some f" and "failing_read f = Some (k, code)"
  shows "bufferAppender path fs =
     \<lparr>bytesRead = length (concat (take k (read_blocks highWaterMark (contents f)))),
      mp4boxFile = map AppendBuffer (buffers 0 (take k (read_blocks highWaterMark (contents f)))),
      thrown = Some (IOError code)\<rparr>"
  using assms
  by (simp add: bufferAppender_def createReadStream_def emit_Data)

lemma bufferAppender_missing:
  assumes "fs path = None"
  shows "bufferAppender path fs =
     \<lparr>bytesRead = 0, mp4boxFile = [], thrown = Some (IOError ''ENOENT'')\<rparr>"
  using assms
  by (simp add: bufferAppender_def createReadStream_def)


lemma set_butlast_take: "set (butlast (take k xs)) \<subseteq> set (butlast xs)"
proof (cases "k < length xs")
  case True
  then have "butlast (take k xs) = take (k - 1) (butlast xs)"
    by (simp add: butlast_take take_butlast)
  then show ?thesis by (simp add: set_take_subset)
next
  case False
  then show ?thesis by simp
qed

lemma loader_blocks_cases:
  "blocks_of (mp4boxFile (bufferAppender path fs)) =
     (case fs path of
        None \<Rightarrow> []
      | Some f \<Rightarrow>
          (case failing_read f of
             None \<Rightarrow> read_blocks highWaterMark (contents f)
           | Some (k, code) \<Rightarrow> take k (read_blocks highWaterMark (contents f))))"
  by (auto simp: bufferAppender_missing bufferAppender_readable bufferAppender_failing
      blocks_of_append blocks_of_map_AppendBuffer map_bytes_buffers
      split: option.splits)

lemma read_blocks_small:
  "0 < hwm \<Longrightarrow> bs \<noteq> [] \<Longrightarrow> length bs \<le> hwm \<Longrightarrow> read_blocks hwm bs = [bs]"
  by (subst read_blocks.simps) (simp add: read_blocks.simps)

lemma read_blocks_big:
  "0 < hwm \<Longrightarrow> bs \<noteq> [] \<Longrightarrow> length bs \<le> hwm \<Longrightarrow> length cs = hwm \<Longrightarrow>
   read_blocks hwm (cs @ bs) = [cs, bs]"
  by (subst read_blocks.simps) (simp add: read_blocks_small)

text \<open>
  Claim C7. The loader opens its stream with the block size \<open>4 * 1024 * 1024\<close>
  bytes (4 MiB): of the blocks it hands to \<^verbatim>\<open>mp4boxFile.appendBuffer\<close>, every one but
  the last has exactly that size, and none is empty or larger.
\<close>

theorem loader_block_size:
  "(\<forall>b \<in> set (butlast (blocks_of (mp4boxFile (bufferAppender path fs)))).
      length b = 4 * 1024 * 1024) \<and>
   (\<forall>b \<in> set (blocks_of (mp4boxFile (bufferAppender path fs))).
      0 < length b \<and> length b \<le> 4 * 1024 * 1024)"
proof -
  let ?all = "case fs path of None \<Rightarrow> [] | Some f \<Rightarrow> read_blocks highWaterMark (contents f)"
  let ?bs = "blocks_of (mp4boxFile (bufferAppender path fs))"
  have sub: "set ?bs \<subseteq> set ?all"
    by (auto simp: loader_blocks_cases split: option.splits dest: in_set_takeD)
  have subl: "set (butlast ?bs) \<subseteq> set (butlast ?all)"
  proof (cases "fs path")
    case None
    then show ?thesis by (simp add: loader_blocks_cases)
  next
    case (Some f)
    then show ?thesis
      using set_butlast_take [of _ "read_blocks highWaterMark (contents f)"]
      by (cases "failing_read f") (auto simp: loader_blocks_cases)
  qed
  have "length b = highWaterMark" if "b \<in> set (butlast ?all)" for b
    using that by (auto split: option.splits dest: read_blocks_butlast)
  moreover have "0 < length b \<and> length b \<le> highWaterMark" if "b \<in> set ?all" for b
    using that by (auto split: option.splits dest: read_blocks_sizes simp del: length_greater_0_conv)
  ultimately show ?thesis
    using sub subl unfolding highWaterMark_def by blast
qed

theorem loader_block_size_witness:
  "replicate highWaterMark 0 \<in>
     set (butlast (blocks_of (mp4boxFile (bufferAppender ''GX010004.MP4'' sample_fs)))) \<and>
   length (replicate highWaterMark (0 :: byte)) = 4 * 1024 * 1024"
proof -
  have "read_blocks highWaterMark (replicate highWaterMark 0 @ [1]) =
      [replicate highWaterMark 0, [1]]"
    using highWaterMark_pos by (intro read_blocks_big) simp_all
  then have "blocks_of (mp4boxFile (bufferAppender ''GX010004.MP4'' sample_fs)) =
      [replicate highWaterMark 0, [1]]"
    by (simp add: loader_blocks_cases sample_fs_def)
  then have "replicate highWaterMark 0 \<in>
     set (butlast (blocks_of (mp4boxFile (bufferAppender ''GX010004.MP4'' sample_fs))))"
    by simp
  with loader_block_size [of "''GX010004.MP4''" sample_fs] show ?thesis
    by blast
qed


text \<open>
  Claim C2. For a file whose reads succeed, the calls on \<^verbatim>\<open>mp4boxFile\<close> are
  \<^verbatim>\<open>appendBuffer\<close> calls followed by one \<^verbatim>\<open>flush\<close>, which is the last call and the
  only \<^verbatim>\<open>flush\<close>; the blocks, concatenated in call order, are the contents of the
  file.
\<close>

theorem loader_reconstructs_file:
  assumes "fs path = Some f" and "failing_read f = None"
  shows "\<exists>bufs. mp4boxFile (bufferAppender path fs) = map AppendBuffer bufs @ [Flush] \<and>
           concat (map bytes bufs) = contents f \<and>
           length (filter (\<lambda>c. c = Flush) (mp4boxFile (bufferAppender path fs))) = 1"
proof -
  let ?bufs = "buffers 0 (read_blocks highWaterMark (contents f))"
  have "filter (\<lambda>c. c = Flush) (map AppendBuffer bs) = []" for bs
    by (induction bs) simp_all
  then have "mp4boxFile (bufferAppender path fs) = map AppendBuffer ?bufs @ [Flush] \<and>
      concat (map bytes ?bufs) = contents f \<and>
      length (filter (\<lambda>c. c = Flush) (mp4boxFile (bufferAppender path fs))) = 1"
    using assms
    by (simp add: bufferAppender_readable map_bytes_buffers concat_read_blocks highWaterMark_pos)
  then show ?thesis by blast
qed

theorem loader_reconstructs_file_witness:
  "sample_fs ''GX010001.MP4'' = Some \<lparr>contents = [71, 80, 77], failing_read = None\<rparr> \<and>
   (\<exists>bufs. mp4boxFile (bufferAppender ''GX010001.MP4'' sample_fs) = map AppendBuffer bufs @ [Flush] \<and>
      concat (map bytes bufs) = [71, 80, 77] \<and>
      length (filter (\<lambda>c. c = Flush) (mp4boxFile (bufferAppender ''GX010001.MP4'' sample_fs))) = 1)"
  using loader_reconstructs_file [of sample_fs "''GX010001.MP4''"
      "\<lparr>contents = [71, 80, 77], failing_read = None\<rparr>"]
  by (simp add: sample_fs_def)

text \<open>
  Claim C4. When a read of the file fails after \<open>k\<close> successful reads, the loader
  throws the I/O error, the blocks appended are the \<open>k\<close> blocks read before the
  failure and no other, \<^verbatim>\<open>flush\<close> is not called, and whatever events might follow the
  error reach no handler.
\<close>

theorem loader_read_failure:
  assumes "fs path = Some f" and "failing_read f = Some (k, code)"
  shows "thrown (bufferAppender path fs) = Some (IOError code) \<and>
         blocks_of (mp4boxFile (bufferAppender path fs)) =
           take k (read_blocks highWaterMark (contents f)) \<and>
         Flush \<notin> set (mp4boxFile (bufferAppender path fs)) \<and>
         (\<forall>rest. emit (createReadStream fs path highWaterMark @ rest)
                   \<lparr>bytesRead = 0, mp4boxFile = [], thrown = None\<rparr> =
                 bufferAppender path fs)"
proof -
  have "emit (createReadStream fs path highWaterMark @ rest)
          \<lparr>bytesRead = 0, mp4boxFile = [], thrown = None\<rparr> = bufferAppender path fs" for rest
    using assms by (simp add: bufferAppender_def createReadStream_def emit_Data)
  then show ?thesis
    using assms
    by (auto simp: bufferAppender_failing blocks_of_map_AppendBuffer map_bytes_buffers)
qed

theorem loader_read_failure_witness:
  "sample_fs ''GX010003.MP4'' =
     Some \<lparr>contents = replicate highWaterMark 0 @ [1], failing_read = Some (1, ''EIO'')\<rparr> \<and>
   thrown (bufferAppender ''GX010003.MP4'' sample_fs) = Some (IOError ''EIO'') \<and>
   blocks_of (mp4boxFile (bufferAppender ''GX010003.MP4'' sample_fs)) = [replicate highWaterMark 0] \<and>
   Flush \<notin> set (mp4boxFile (bufferAppender ''GX010003.MP4'' sample_fs)) \<and>
   emit (createReadStream sample_fs ''GX010003.MP4'' highWaterMark @ [Data [1], End])
     \<lparr>bytesRead = 0, mp4boxFile = [], thrown = None\<rparr> =
   bufferAppender ''GX010003.MP4'' sample_fs"
proof -
  have rb: "read_blocks highWaterMark (replicate highWaterMark 0 @ [1]) =
      [replicate highWaterMark 0, [1]]"
    using highWaterMark_pos by (intro read_blocks_big) simp_all
  have fs: "sample_fs ''GX010003.MP4'' =
     Some \<lparr>contents = replicate highWaterMark 0 @ [1], failing_read = Some (1, ''EIO'')\<rparr>"
    by (simp add: sample_fs_def)
  show ?thesis
    using loader_read_failure [of sample_fs "''GX010003.MP4''"
        "\<lparr>contents = replicate highWaterMark 0 @ [1], failing_read = Some (1, ''EIO'')\<rparr>"
        1 "''EIO''"] fs rb
    by simp
qed

text \<open>
  Claim C8. The \<^verbatim>\<open>fileStart\<close> of each appended buffer is the sum of the lengths
  of the buffers appended before it (so the first is 0, and there is no gap and no
  overlap), the offsets are strictly increasing, and when the stream ends without an
  error the \<^verbatim>\<open>flush\<close> follows the last \<^verbatim>\<open>appendBuffer\<close>.
\<close>

theorem loader_offsets:
  "\<exists>bufs. mp4boxFile (bufferAppender path fs) =
             map AppendBuffer bufs @ (if thrown (bufferAppender path fs) = None then [Flush] else []) \<and>
          (\<forall>k<length bufs. fileStart (bufs ! k) = length (concat (map bytes (take k bufs)))) \<and>
          sorted_wrt (<) (map fileStart bufs)"
proof -
  have main: "(\<forall>k<length (buffers 0 cs).
                 fileStart (buffers 0 cs ! k) = length (concat (map bytes (take k (buffers 0 cs))))) \<and>
              sorted_wrt (<) (map fileStart (buffers 0 cs))"
    if "[] \<notin> set cs" for cs
  proof -
    have "map bytes (take k (buffers 0 cs)) = take k cs" for k
      by (simp add: buffers_take [symmetric] map_bytes_buffers)
    then show ?thesis
      using that by (simp add: fileStart_buffers length_buffers fileStart_buffers_increasing)
  qed
  have ne: "[] \<notin> set (read_blocks highWaterMark bs)" for bs
    using read_blocks_sizes [of "[]" highWaterMark bs] by auto
  show ?thesis
  proof (cases "fs path")
    case None
    then show ?thesis by (simp add: bufferAppender_missing)
  next
    case (Some f)
    show ?thesis
    proof (cases "failing_read f")
      case None
      with Some main [OF ne, of "contents f"] show ?thesis
        by (intro exI [of _ "buffers 0 (read_blocks highWaterMark (contents f))"])
          (simp add: bufferAppender_readable)
    next
      case (Some kc)
      obtain k code where kc: "kc = (k, code)" by (cases kc)
      have "[] \<notin> set (take k (read_blocks highWaterMark (contents f)))"
        using ne [of "contents f"] by (auto dest: in_set_takeD)
      from main [OF this] \<open>fs path = Some f\<close> Some kc show ?thesis
        by (intro exI [of _ "buffers 0 (take k (read_blocks highWaterMark (contents f)))"])
          (simp add: bufferAppender_failing)
    qed
  qed
qed

theorem loader_offsets_witness:
  "\<exists>bufs. mp4boxFile (bufferAppender ''GX010004.MP4'' sample_fs) = map AppendBuffer bufs @ [Flush] \<and>
     1 < length bufs \<and>
     fileStart (bufs ! 0) = 0 \<and>
     fileStart (bufs ! 1) = length (bytes (bufs ! 0))"
proof -
  have rb: "read_blocks highWaterMark (replicate highWaterMark 0 @ [1]) =
      [replicate highWaterMark 0, [1]]"
    using highWaterMark_pos by (intro read_blocks_big) simp_all
  have fs: "sample_fs ''GX010004.MP4'' =
     Some \<lparr>contents = replicate highWaterMark 0 @ [1], failing_read = None\<rparr>"
    by (simp add: sample_fs_def)
  have l: "bufferAppender ''GX010004.MP4'' sample_fs =
     \<lparr>bytesRead = highWaterMark + 1,
      mp4boxFile = map AppendBuffer (buffers 0 [replicate highWaterMark 0, [1]]) @ [Flush],
      thrown = None\<rparr>"
    using bufferAppender_readable [of sample_fs "''GX010004.MP4''"
        "\<lparr>contents = replicate highWaterMark 0 @ [1], failing_read = None\<rparr>"] fs rb
    by simp
  from loader_offsets [of "''GX010004.MP4''" sample_fs] obtain bufs where
    b0: "mp4boxFile (bufferAppender ''GX010004.MP4'' sample_fs) =
       map AppendBuffer bufs @
       (if thrown (bufferAppender ''GX010004.MP4'' sample_fs) = None then [Flush] else [])"
    and o: "\<forall>k<length bufs. fileStart (bufs ! k) = length (concat (map bytes (take k bufs)))"
    by blast
  from b0 have b: "mp4boxFile (bufferAppender ''GX010004.MP4'' sample_fs) =
      map AppendBuffer bufs @ [Flush]"
    by (simp add: l)
  then have "length (mp4boxFile (bufferAppender ''GX010004.MP4'' sample_fs)) = length bufs + 1"
    by simp
  then have len: "length bufs = 2"
    by (simp add: l)
  then obtain b0 b1 where bufs: "bufs = [b0, b1]"
    by (cases bufs; cases "tl bufs") auto
  from o have "fileStart (bufs ! 0) = 0" "fileStart (bufs ! 1) = length (bytes (bufs ! 0))"
    unfolding bufs by (auto simp: less_Suc_eq take_Suc_conv_app_nth)
  with b len show ?thesis by auto
qed

section \<open>The driver: properties\<close>

lemma initial_fields [simp]:
  "stdout initial = []" "stderr initial = []" "exit_code initial = None"
  "promises initial = []" "all_values initial = []" "all_state initial = None"
  "interpreter_calls initial = []" "writes initial = []" "unhandled initial = []"
  by (simp_all add: initial_def)

lemma all_state_then_extracted [simp]:
  "all_state (then_extracted env argv vs w) = all_state w"
  "promises (then_extracted env argv vs w) = promises w"
  "exit_code (then_extracted env argv vs w) = exit_code w"
  "stdout (then_extracted env argv vs w) = stdout w"
  "stderr (then_extracted env argv vs w) = stderr w"
  by (simp_all add: then_extracted_def Let_def split: option.splits settled.splits)

lemma joint_inv_start: "joint_inv env argv ps [] (Promise_all_then env argv ps)"
  by (cases "ps = []") (simp_all add: joint_inv_def Promise_all_then_def Let_def)

lemma map_Some_the: "None \<notin> set vs \<Longrightarrow> map Some (map the vs) = vs"
  by (induction vs) auto

lemma joint_inv_settle:
  assumes "joint_inv env argv ps order w"
  shows "joint_inv env argv ps (order @ [i]) (settle env argv w i)"
proof (cases "all_state w")
  case (Some s)
  then have "settle env argv w i = w" by (simp add: settle_def)
  with assms Some show ?thesis
    by (cases s) (auto simp: joint_inv_def)
next
  case None
  note st = None
  from assms None have w: "w = initial\<lparr>promises := ps, all_values := all_values w\<rparr>"
    and len: "length (all_values w) = length ps"
    and hole: "None \<in> set (all_values w)"
    and vals: "\<And>j v. j < length ps \<Longrightarrow> all_values w ! j = Some v \<longleftrightarrow> j \<in> set order \<and> ps ! j = Fulfilled v"
    and ok: "\<And>j. j \<in> set order \<Longrightarrow> j < length ps \<Longrightarrow> \<exists>v. ps ! j = Fulfilled v"
    by (simp_all add: joint_inv_def)
  have pw: "promises w = ps" and ex: "exit_code w = None"
    and fields: "stdout w = []" "stderr w = []" "interpreter_calls w = []" "writes w = []"
      "unhandled w = []"
    using arg_cong [OF w, of promises] arg_cong [OF w, of exit_code] arg_cong [OF w, of stdout]
      arg_cong [OF w, of stderr] arg_cong [OF w, of interpreter_calls] arg_cong [OF w, of writes]
      arg_cong [OF w, of unhandled]
    by simp_all
  show ?thesis
  proof (cases "i < length ps")
    case False
    then have "settle env argv w i = w" by (simp add: settle_def pw)
    moreover from False have "j \<in> set (order @ [i]) \<longleftrightarrow> j \<in> set order" if "j < length ps" for j
      using that by auto
    ultimately show ?thesis
      using assms st False by (auto simp: joint_inv_def)
  next
    case True
    show ?thesis
    proof (cases "ps ! i")
      case (Rejected e)
      with True st pw ex have "settle env argv w i =
          w\<lparr>all_state := Some (Rejected e), unhandled := unhandled w @ [e]\<rparr>"
        by (simp add: settle_def)
      with True Rejected pw ex fields show ?thesis
        by (auto simp: joint_inv_def)
    next
      case (Fulfilled v)
      let ?vs = "(all_values w)[i := Some v]"
      have vals': "?vs ! j = Some x \<longleftrightarrow> j \<in> set (order @ [i]) \<and> ps ! j = Fulfilled x"
        if "j < length ps" for j x
        using that vals [of j x] Fulfilled len by (cases "j = i") auto
      have ok': "\<exists>v. ps ! j = Fulfilled v" if "j \<in> set (order @ [i])" "j < length ps" for j
        using that ok Fulfilled by auto
      show ?thesis
      proof (cases "None \<in> set ?vs")
        case hole': True
        with True st pw ex Fulfilled have s: "settle env argv w i = w\<lparr>all_values := ?vs\<rparr>"
          by (simp add: settle_def Let_def)
        have "w\<lparr>all_values := ?vs\<rparr> = initial\<lparr>promises := ps, all_values := ?vs\<rparr>"
          by (subst w) simp
        with hole' len vals' ok' st show ?thesis
          unfolding s joint_inv_def by simp
      next
        case full: False
        with True st pw ex Fulfilled have s: "settle env argv w i =
            then_extracted env argv (map the ?vs)
              (w\<lparr>all_values := ?vs, all_state := Some (Fulfilled (map the ?vs))\<rparr>)"
          by (simp add: settle_def Let_def)
        have m: "map Some (map the ?vs) = ?vs"
          by (rule map_Some_the [OF full])
        have eq: "w\<lparr>all_values := ?vs, all_state := Some (Fulfilled (map the ?vs))\<rparr> =
            initial\<lparr>promises := ps, all_values := map Some (map the ?vs),
              all_state := Some (Fulfilled (map the ?vs))\<rparr>"
          unfolding m by (subst w) simp
        have "j \<in> set (order @ [i]) \<and> ps ! j = Fulfilled (map the ?vs ! j)" if "j < length ps" for j
        proof -
          from that len have "?vs ! j \<in> set ?vs" by simp
          with full obtain x where x: "?vs ! j = Some x" by (cases "?vs ! j") auto
          with vals' [OF that, of x] that len show ?thesis by simp
        qed
        with len show ?thesis
          unfolding s eq joint_inv_def by simp
      qed
    qed
  qed
qed

lemma joint_inv_foldl:
  "joint_inv env argv ps order (foldl (settle env argv) (Promise_all_then env argv ps) order)"
proof (induction order rule: rev_induct)
  case Nil
  show ?case by (simp add: joint_inv_start)
next
  case (snoc i order)
  then show ?case by (simp add: joint_inv_settle)
qed

lemma sample_loader_1:
  "blocks_of (mp4boxFile (bufferAppender ''GX010001.MP4'' sample_fs)) = [[71, 80, 77]]"
  by (simp add: loader_blocks_cases sample_fs_def read_blocks_small highWaterMark_def)

lemma sample_loader_2:
  "blocks_of (mp4boxFile (bufferAppender ''GX020001.MP4'' sample_fs)) = [[68, 70]]"
  by (simp add: loader_blocks_cases sample_fs_def read_blocks_small highWaterMark_def)

lemma sample_loader_3:
  "blocks_of (mp4boxFile (bufferAppender ''GX010002.MP4'' sample_fs)) = []"
  by (simp add: loader_blocks_cases sample_fs_def read_blocks.simps)

lemma sample_extract:
  "gpmfExtract sample_env (bufferAppender ''GX010001.MP4'') = Returns (Fulfilled 3)"
  "gpmfExtract sample_env (bufferAppender ''GX020001.MP4'') = Returns (Fulfilled 2)"
  "gpmfExtract sample_env (bufferAppender ''GX010002.MP4'') = Returns (Rejected (Error ''Track not found''))"
  by (simp_all add: sample_env_def sample_loader_1 sample_loader_2 sample_loader_3)

lemma sample_main:
  "main sample_env sample_argv =
     initial\<lparr>promises := [Fulfilled 3, Fulfilled 2], all_values := [None, None]\<rparr>"
  by (simp add: main_def sample_argv_def files_def sample_extract Promise_all_then_def
      eval_nat_numeral)

lemma failing_main:
  "main sample_env failing_argv =
     initial\<lparr>promises := [Fulfilled 3, Rejected (Error ''Track not found'')], all_values := [None, None]\<rparr>"
  by (simp add: main_def failing_argv_def files_def sample_extract Promise_all_then_def
      eval_nat_numeral)

lemma sample_interpreter:
  "goproTelemetry sample_env extracted \<lparr>preset = ''geojson''\<rparr> = Some (Fulfilled (sum_list extracted))"
  "JSON_stringify sample_env telemetry None 2 = ''  '' @ replicate telemetry CHR ''.''"
  "basename_filename sample_env = ''extractGPS.js''"
  by (simp_all add: sample_env_def numeral_2_eq_2)

lemma sample_consts:
  "geojsonOutFile sample_argv = ''0001.geojson''"
  "geojsonOutFile failing_argv = ''0002.geojson''"
  "files sample_argv = [''GX010001.MP4'', ''GX020001.MP4'']"
  "files failing_argv = [''GX010001.MP4'', ''GX010002.MP4'']"
  by (simp_all add: geojsonOutFile_def files_def sample_argv_def failing_argv_def)

lemma replicate_5: "replicate 5 c = [c, c, c, c, c]"
  by (simp add: eval_nat_numeral)

lemma sample_run_10:
  "run sample_env sample_argv [1, 0] =
     initial\<lparr>promises := [Fulfilled 3, Fulfilled 2], all_values := [Some 3, Some 2],
       all_state := Some (Fulfilled [3, 2]),
       interpreter_calls := [([3, 2], \<lparr>preset = ''geojson''\<rparr>)],
       writes := [(''0001.geojson'', ''  .....'')]\<rparr>"
  by (simp add: run_def sample_main settle_def then_extracted_def sample_interpreter
      sample_consts Let_def replicate_5)

lemma failing_run_10:
  "run sample_env failing_argv [1, 0] =
     initial\<lparr>promises := [Fulfilled 3, Rejected (Error ''Track not found'')],
       all_values := [None, None],
       all_state := Some (Rejected (Error ''Track not found'')),
       unhandled := [Error ''Track not found'']\<rparr>"
  by (simp add: run_def failing_main settle_def Let_def)


lemma settle_exited: "exit_code w \<noteq> None \<Longrightarrow> foldl (settle env argv) w order = w"
  by (induction order) (simp_all add: settle_def)

lemma settle_no_promises: "promises w = [] \<Longrightarrow> foldl (settle env argv) w order = w"
  by (induction order) (simp_all add: settle_def)

lemma run_usage:
  "length argv < 4 \<Longrightarrow> run env argv order = initial\<lparr>stdout := [usage env], exit_code := Some 1\<rparr>"
  by (simp add: run_def main_def settle_exited)

lemma run_Throws:
  "4 \<le> length argv \<Longrightarrow> push_promises env (files argv) [] = Throws e \<Longrightarrow>
   run env argv order = initial\<lparr>stderr := [e]\<rparr>"
  by (simp add: run_def main_def settle_no_promises)

lemma run_Returns:
  "4 \<le> length argv \<Longrightarrow> push_promises env (files argv) [] = Returns ps \<Longrightarrow>
   joint_inv env argv ps order (run env argv order)"
  by (simp add: run_def main_def joint_inv_foldl)

lemma push_promises_Returns:
  "push_promises env fs pushed = Returns ps \<Longrightarrow>
   \<exists>qs. ps = pushed @ qs \<and>
        map Returns qs = map (\<lambda>file. gpmfExtract env (bufferAppender file)) fs"
proof (induction fs arbitrary: pushed)
  case Nil
  then show ?case by simp
next
  case (Cons f rest)
  then obtain p where p: "gpmfExtract env (bufferAppender f) = Returns p"
    and r: "push_promises env rest (pushed @ [p]) = Returns ps"
    by (auto split: call_result.splits)
  from Cons.IH [OF r] obtain qs where "ps = (pushed @ [p]) @ qs"
    and "map Returns qs = map (\<lambda>file. gpmfExtract env (bufferAppender file)) rest"
    by blast
  with p show ?case
    by (intro exI [of _ "p # qs"]) simp
qed

lemma push_promises_total:
  "\<forall>file\<in>set fs. \<exists>p. gpmfExtract env (bufferAppender file) = Returns p \<Longrightarrow>
   \<exists>ps. push_promises env fs pushed = Returns ps"
  by (induction fs arbitrary: pushed) auto

lemma push_promises_start:
  assumes "push_promises env fs [] = Returns ps"
  shows "map Returns ps = map (\<lambda>file. gpmfExtract env (bufferAppender file)) fs"
    and "length ps = length fs"
proof -
  from push_promises_Returns [OF assms]
  show m: "map Returns ps = map (\<lambda>file. gpmfExtract env (bufferAppender file)) fs"
    by simp
  from arg_cong [OF m, of length] show "length ps = length fs"
    by simp
qed

lemma push_promises_nth:
  assumes "push_promises env fs [] = Returns ps" and "i < length fs"
  shows "gpmfExtract env (bufferAppender (fs ! i)) = Returns (ps ! i)"
proof -
  from push_promises_start [OF assms(1)] assms(2)
  have "map Returns ps ! i = map (\<lambda>file. gpmfExtract env (bufferAppender file)) fs ! i"
    and "i < length ps"
    by simp_all
  with assms(2) show ?thesis by simp
qed

text \<open>What the invariant says about the effects.\<close>

lemma joint_inv_effects:
  assumes "joint_inv env argv ps order w"
    and "interpreter_calls w \<noteq> [] \<or> writes w \<noteq> []"
  obtains vs where "all_state w = Some (Fulfilled vs)" and "length vs = length ps"
    and "\<And>j. j < length ps \<Longrightarrow> j \<in> set order \<and> ps ! j = Fulfilled (vs ! j)"
    and "w = then_extracted env argv vs
               (initial\<lparr>promises := ps, all_values := map Some vs,
                  all_state := Some (Fulfilled vs)\<rparr>)"
proof (cases "all_state w")
  case None
  with assms(1) have "w = initial\<lparr>promises := ps, all_values := all_values w\<rparr>"
    by (simp add: joint_inv_def)
  from arg_cong [OF this, of interpreter_calls] arg_cong [OF this, of writes] assms(2)
  show ?thesis by simp
next
  case (Some s)
  show ?thesis
  proof (cases s)
    case (Rejected e)
    with Some assms show ?thesis by (simp add: joint_inv_def)
  next
    case (Fulfilled vs)
    with Some assms(1) that [of vs] show ?thesis by (simp add: joint_inv_def)
  qed
qed

lemma joint_inv_all_fulfilled:
  assumes "joint_inv env argv ps order w"
    and "length vs = length ps"
    and "\<And>j. j < length ps \<Longrightarrow> j \<in> set order \<and> ps ! j = Fulfilled (vs ! j)"
  shows "w = then_extracted env argv vs
               (initial\<lparr>promises := ps, all_values := map Some vs,
                  all_state := Some (Fulfilled vs)\<rparr>)"
proof (cases "all_state w")
  case None
  with assms(1) have hole: "None \<in> set (all_values w)"
    and len: "length (all_values w) = length ps"
    and vals: "\<And>j v. j < length ps \<Longrightarrow>
          all_values w ! j = Some v \<longleftrightarrow> j \<in> set order \<and> ps ! j = Fulfilled v"
    by (simp_all add: joint_inv_def)
  from hole obtain j where j: "j < length (all_values w)" "all_values w ! j = None"
    by (auto simp: in_set_conv_nth)
  with len vals [of j "vs ! j"] assms(3) [of j] show ?thesis by simp
next
  case (Some s)
  show ?thesis
  proof (cases s)
    case (Rejected e)
    with Some assms(1) obtain j where "j < length ps" "ps ! j = Rejected e"
      by (auto simp: joint_inv_def)
    with assms(3) [of j] show ?thesis by simp
  next
    case (Fulfilled us)
    with Some assms(1) have us: "length us = length ps"
      "\<And>j. j < length ps \<Longrightarrow> ps ! j = Fulfilled (us ! j)"
      and w: "w = then_extracted env argv us
               (initial\<lparr>promises := ps, all_values := map Some us,
                  all_state := Some (Fulfilled us)\<rparr>)"
      by (simp_all add: joint_inv_def)
    have "us = vs"
      using us assms(2,3) by (intro nth_equalityI) auto
    with w show ?thesis by simp
  qed
qed


lemma then_extracted_effects:
  "interpreter_calls (then_extracted env argv vs w) =
     interpreter_calls w @ [(vs, \<lparr>preset = ''geojson''\<rparr>)]"
  "writes (then_extracted env argv vs w) =
     writes w @
     (case goproTelemetry env vs \<lparr>preset = ''geojson''\<rparr> of
        Some (Fulfilled telemetry) \<Rightarrow> [(geojsonOutFile argv, JSON_stringify env telemetry None 2)]
      | _ \<Rightarrow> [])"
  by (simp_all add: then_extracted_def Let_def split: option.splits settled.splits)

lemma joint_inv_promises: "joint_inv env argv ps order w \<Longrightarrow> promises w = ps"
proof (cases "all_state w")
  case None
  assume "joint_inv env argv ps order w"
  with None have "w = initial\<lparr>promises := ps, all_values := all_values w\<rparr>"
    by (simp add: joint_inv_def)
  from arg_cong [OF this, of promises] show ?thesis by simp
next
  case (Some s)
  assume "joint_inv env argv ps order w"
  with Some show ?thesis
  proof (cases s)
    case (Fulfilled vs)
    assume "joint_inv env argv ps order w"
    with Some Fulfilled have "w = then_extracted env argv vs
               (initial\<lparr>promises := ps, all_values := map Some vs,
                  all_state := Some (Fulfilled vs)\<rparr>)"
      by (simp add: joint_inv_def)
    from arg_cong [OF this, of promises] show ?thesis by simp
  qed (simp add: joint_inv_def)
qed

lemma effects_need_all:
  assumes "interpreter_calls (run env argv order) \<noteq> [] \<or> writes (run env argv order) \<noteq> []"
    and "i < length (files argv)"
  shows "i \<in> set order \<and>
         (\<exists>v. gpmfExtract env (bufferAppender (files argv ! i)) = Returns (Fulfilled v))"
proof (cases "length argv < 4")
  case True
  with assms(1) show ?thesis by (simp add: run_usage)
next
  case False
  then have valid: "4 \<le> length argv" by simp
  show ?thesis
  proof (cases "push_promises env (files argv) []")
    case (Throws e)
    with assms(1) valid show ?thesis by (simp add: run_Throws)
  next
    case (Returns ps)
    have "\<exists>vs. \<forall>j<length ps. j \<in> set order \<and> ps ! j = Fulfilled (vs ! j)"
      by (rule joint_inv_effects [OF run_Returns [OF valid Returns] assms(1)]) blast
    with push_promises_start(2) [OF Returns] push_promises_nth [OF Returns assms(2)] assms(2)
    show ?thesis by auto
  qed
qed

lemma run_all_fulfilled:
  assumes "4 \<le> length argv"
    and "map (\<lambda>file. gpmfExtract env (bufferAppender file)) (files argv) =
         map (\<lambda>p. Returns (Fulfilled p)) payloads"
    and "\<forall>i<length payloads. i \<in> set order"
  shows "run env argv order =
     then_extracted env argv payloads
       (initial\<lparr>promises := map Fulfilled payloads, all_values := map Some payloads,
          all_state := Some (Fulfilled payloads)\<rparr>)"
proof -
  from arg_cong [OF assms(2), of length] have len: "length (files argv) = length payloads"
    by simp
  have "gpmfExtract env (bufferAppender (files argv ! i)) = Returns (Fulfilled (payloads ! i))"
    if "i < length (files argv)" for i
    using arg_cong [OF assms(2), of "\<lambda>xs. xs ! i"] that len by simp
  then have "\<forall>file\<in>set (files argv). \<exists>p. gpmfExtract env (bufferAppender file) = Returns p"
    by (auto simp: in_set_conv_nth)
  from push_promises_total [OF this] obtain ps where
    ps: "push_promises env (files argv) [] = Returns ps" by blast
  from push_promises_start(1) [OF ps] assms(2)
  have "map Returns ps = map Returns (map Fulfilled payloads)" by simp
  then have eq: "ps = map Fulfilled payloads"
    by (rule map_injective) (simp add: inj_on_def)
  have "run env argv order = then_extracted env argv payloads
       (initial\<lparr>promises := ps, all_values := map Some payloads,
          all_state := Some (Fulfilled payloads)\<rparr>)"
    using assms(3)
    by (intro joint_inv_all_fulfilled [OF run_Returns [OF assms(1) ps]]) (simp_all add: eq)
  then show ?thesis by (simp add: eq)
qed

text \<open>
  Claim C6. With fewer than two arguments after the node binary and the script (an
  output path and at least one video file are needed), the script prints the usage
  line and exits with code 1: no extraction is started, nothing is interpreted or
  written, and nothing happens afterwards.
\<close>

theorem usage_on_invalid_invocation:
  assumes "length args < 2"
  shows "run env (node # script # args) order =
     \<lparr>stdout = [''Usage: '' @ basename_filename env @
                 '' <geojson_out_file> <video_file_name> <video_file_name>...''],
      stderr = [], exit_code = Some 1, promises = [], all_values = [], all_state = None,
      interpreter_calls = [], writes = [], unhandled = []\<rparr>"
  using assms by (simp add: run_usage usage_def initial_def)

theorem usage_on_invalid_invocation_witness:
  "length [''0001.geojson''] < 2 \<and>
   run sample_env [''node'', ''extractGPS.js'', ''0001.geojson''] [0] =
     \<lparr>stdout = [''Usage: extractGPS.js <geojson_out_file> <video_file_name> <video_file_name>...''],
      stderr = [], exit_code = Some 1, promises = [], all_values = [], all_state = None,
      interpreter_calls = [], writes = [], unhandled = []\<rparr>"
  using usage_on_invalid_invocation [of "[''0001.geojson'']" sample_env "''node''" "''extractGPS.js''" "[0]"]
  by (simp add: sample_interpreter)

text \<open>
  Claim C5. The interpreter is called and the file is written only after every
  extraction has settled: whenever, after the promises in \<open>order\<close> have settled, the
  callbacks have run, the promise of every input file is among the settled ones (and
  was fulfilled). One settled promise is not enough, as in a race.
\<close>

theorem output_after_all_settled:
  assumes "interpreter_calls (run env argv order) \<noteq> [] \<or> writes (run env argv order) \<noteq> []"
  shows "\<forall>i<length (files argv). i \<in> set order \<and>
           (\<exists>v. gpmfExtract env (bufferAppender (files argv ! i)) = Returns (Fulfilled v))"
  using assms by (simp add: effects_need_all)

theorem output_after_all_settled_witness:
  "writes (run sample_env sample_argv [1, 0]) \<noteq> [] \<and>
   length (files sample_argv) = 2 \<and>
   0 \<in> set [1, 0 :: nat] \<and> 1 \<in> set [1, 0 :: nat] \<and>
   (\<exists>v. gpmfExtract sample_env (bufferAppender (files sample_argv ! 0)) = Returns (Fulfilled v)) \<and>
   (\<exists>v. gpmfExtract sample_env (bufferAppender (files sample_argv ! 1)) = Returns (Fulfilled v))"
proof -
  have w: "writes (run sample_env sample_argv [1, 0]) \<noteq> []"
    unfolding sample_run_10 by simp
  then have "interpreter_calls (run sample_env sample_argv [1, 0]) \<noteq> [] \<or>
      writes (run sample_env sample_argv [1, 0]) \<noteq> []" ..
  from output_after_all_settled [OF this]
  have a: "\<forall>i<length (files sample_argv). i \<in> set [1, 0] \<and>
      (\<exists>v. gpmfExtract sample_env (bufferAppender (files sample_argv ! i)) = Returns (Fulfilled v))" .
  from a [rule_format, of 0] a [rule_format, of 1] w show ?thesis
    by (simp add: sample_consts)
qed

text \<open>
  Claim C1, as the code has it. The script handles one group of files and joins their
  extractions with \<^verbatim>\<open>Promise.all\<close>: when the extraction of any one input file fails
  (its promise is rejected, or the call that starts it throws), the interpreter is
  never called and nothing is written, whatever the other extractions yield and in
  whatever order they settle.
\<close>

theorem failed_extraction_no_output:
  assumes "i < length (files argv)"
    and "\<forall>v. gpmfExtract env (bufferAppender (files argv ! i)) \<noteq> Returns (Fulfilled v)"
  shows "interpreter_calls (run env argv order) = [] \<and> writes (run env argv order) = []"
  using effects_need_all [of env argv order i] assms by blast

theorem failed_extraction_no_output_witness:
  "1 < length (files failing_argv) \<and>
   gpmfExtract sample_env (bufferAppender (files failing_argv ! 1)) =
     Returns (Rejected (Error ''Track not found'')) \<and>
   interpreter_calls (run sample_env failing_argv [0, 1]) = [] \<and>
   writes (run sample_env failing_argv [0, 1]) = []"
  using failed_extraction_no_output [of 1 failing_argv sample_env "[0, 1]"]
  by (simp add: sample_consts sample_extract)

text \<open>
  Claim C1 as stated fails. Of two input files the first is extracted (payload 3) and
  the second is rejected by the decoder. The rejection is not caught by the
  \<^verbatim>\<open>catch\<close> block (nothing is printed by \<^verbatim>\<open>console.error\<close>; it is a rejection
  without a handler), and the payload of the first file is neither interpreted nor
  written.
\<close>

theorem failure_not_isolated_counterexample:
  "gpmfExtract sample_env (bufferAppender (files failing_argv ! 0)) = Returns (Fulfilled 3) \<and>
   gpmfExtract sample_env (bufferAppender (files failing_argv ! 1)) =
     Returns (Rejected (Error ''Track not found'')) \<and>
   interpreter_calls (run sample_env failing_argv [1, 0]) = [] \<and>
   writes (run sample_env failing_argv [1, 0]) = [] \<and>
   stderr (run sample_env failing_argv [1, 0]) = [] \<and>
   unhandled (run sample_env failing_argv [1, 0]) = [Error ''Track not found'']"
  unfolding failing_run_10 by (simp add: sample_consts sample_extract)


lemma Fulfilled_value_of:
  "list_all (\<lambda>p. value_of p \<noteq> None) ps \<Longrightarrow> map Fulfilled (map (the \<circ> value_of) ps) = ps"
proof (induction ps)
  case Nil
  then show ?case by simp
next
  case (Cons p ps)
  then show ?case by (cases p) simp_all
qed

lemma succeeded_iff:
  "succeeded env argv order \<longleftrightarrow>
     (\<exists>payloads telemetry.
        map (\<lambda>file. gpmfExtract env (bufferAppender file)) (files argv) =
          map (\<lambda>p. Returns (Fulfilled p)) payloads \<and>
        (\<forall>i<length payloads. i \<in> set order) \<and>
        goproTelemetry env payloads \<lparr>preset = ''geojson''\<rparr> = Some (Fulfilled telemetry))"
  (is "?l \<longleftrightarrow> ?r")
proof
  assume ?l
  then obtain ps telemetry where ps: "push_promises env (files argv) [] = Returns ps"
    and ord: "list_all (\<lambda>i. i \<in> set order) [0..<length ps]"
    and ful: "list_all (\<lambda>p. value_of p \<noteq> None) ps"
    and tel: "goproTelemetry env (map (the \<circ> value_of) ps) \<lparr>preset = ''geojson''\<rparr> =
        Some (Fulfilled telemetry)"
    by (auto simp: succeeded_def split: call_result.splits option.splits settled.splits)
  let ?payloads = "map (the \<circ> value_of) ps"
  have "map (\<lambda>file. gpmfExtract env (bufferAppender file)) (files argv) =
      map Returns (map Fulfilled ?payloads)"
    using push_promises_start(1) [OF ps] Fulfilled_value_of [OF ful] by simp
  then have "map (\<lambda>file. gpmfExtract env (bufferAppender file)) (files argv) =
      map (\<lambda>p. Returns (Fulfilled p)) ?payloads"
    by (simp add: comp_def)
  moreover from ord have "\<forall>i<length ?payloads. i \<in> set order"
    by (simp add: list_all_iff)
  ultimately show ?r using tel by blast
next
  assume ?r
  then obtain payloads telemetry where
    m: "map (\<lambda>file. gpmfExtract env (bufferAppender file)) (files argv) =
          map (\<lambda>p. Returns (Fulfilled p)) payloads"
    and ord: "\<forall>i<length payloads. i \<in> set order"
    and tel: "goproTelemetry env payloads \<lparr>preset = ''geojson''\<rparr> = Some (Fulfilled telemetry)"
    by blast
  from arg_cong [OF m, of length] have len: "length (files argv) = length payloads"
    by simp
  have "gpmfExtract env (bufferAppender (files argv ! i)) = Returns (Fulfilled (payloads ! i))"
    if "i < length (files argv)" for i
    using arg_cong [OF m, of "\<lambda>xs. xs ! i"] that len by simp
  then have "\<forall>file\<in>set (files argv). \<exists>p. gpmfExtract env (bufferAppender file) = Returns p"
    by (auto simp: in_set_conv_nth)
  from push_promises_total [OF this] obtain ps where
    ps: "push_promises env (files argv) [] = Returns ps" by blast
  from push_promises_start(1) [OF ps] m
  have "map Returns ps = map Returns (map Fulfilled payloads)" by simp
  then have eq: "ps = map Fulfilled payloads"
    by (rule map_injective) (simp add: inj_on_def)
  have "map (the \<circ> value_of) ps = payloads"
    unfolding eq by (simp add: comp_def)
  moreover have "list_all (\<lambda>p. value_of p \<noteq> None) ps"
    unfolding eq by (simp add: list_all_iff)
  moreover from ord have "list_all (\<lambda>i. i \<in> set order) [0..<length ps]"
    unfolding eq by (simp add: list_all_iff)
  ultimately show ?l
    using ps tel by (simp add: succeeded_def)
qed

text \<open>
  Claim C3. An invocation is one logical recording, and its output path is the first
  argument, \<^verbatim>\<open>process.argv[2]\<close>. When the invocation succeeds exactly one file is
  written, at that path; when it does not (an extraction or the interpretation has
  failed, or is still pending) no file is written.
\<close>

theorem one_output_file:
  assumes "4 \<le> length argv"
  shows "(succeeded env argv order \<longrightarrow>
            (\<exists>data. writes (run env argv order) = [(argv ! 2, data)])) \<and>
         (\<not> succeeded env argv order \<longrightarrow> writes (run env argv order) = [])"
proof (intro conjI impI)
  assume "succeeded env argv order"
  then obtain payloads telemetry where
    m: "map (\<lambda>file. gpmfExtract env (bufferAppender file)) (files argv) =
          map (\<lambda>p. Returns (Fulfilled p)) payloads"
    and ord: "\<forall>i<length payloads. i \<in> set order"
    and tel: "goproTelemetry env payloads \<lparr>preset = ''geojson''\<rparr> = Some (Fulfilled telemetry)"
    unfolding succeeded_iff by blast
  from run_all_fulfilled [OF assms m ord] tel
  show "\<exists>data. writes (run env argv order) = [(argv ! 2, data)]"
    by (simp add: then_extracted_effects geojsonOutFile_def)
next
  assume failed: "\<not> succeeded env argv order"
  show "writes (run env argv order) = []"
  proof (rule ccontr)
    assume w: "writes (run env argv order) \<noteq> []"
    then have eff: "interpreter_calls (run env argv order) \<noteq> [] \<or> writes (run env argv order) \<noteq> []" ..
    have all: "i \<in> set order \<and>
        (\<exists>v. gpmfExtract env (bufferAppender (files argv ! i)) = Returns (Fulfilled v))"
      if "i < length (files argv)" for i
      using effects_need_all [OF eff that] .
    then obtain payload where
      payload: "\<And>i. i < length (files argv) \<Longrightarrow>
        gpmfExtract env (bufferAppender (files argv ! i)) = Returns (Fulfilled (payload i))"
      by metis
    let ?payloads = "map payload [0..<length (files argv)]"
    have m: "map (\<lambda>file. gpmfExtract env (bufferAppender file)) (files argv) =
          map (\<lambda>p. Returns (Fulfilled p)) ?payloads"
      by (rule nth_equalityI) (simp_all add: payload)
    have ord: "\<forall>i<length ?payloads. i \<in> set order"
      using all by simp
    from run_all_fulfilled [OF assms m ord] w
    obtain telemetry where
      "goproTelemetry env ?payloads \<lparr>preset = ''geojson''\<rparr> = Some (Fulfilled telemetry)"
      by (auto simp: then_extracted_effects split: option.splits settled.splits)
    with m ord have "succeeded env argv order"
      unfolding succeeded_iff by blast
    with failed show False ..
  qed
qed

theorem one_output_file_witness:
  "4 \<le> length sample_argv \<and> succeeded sample_env sample_argv [1, 0] \<and>
   writes (run sample_env sample_argv [1, 0]) = [(sample_argv ! 2, ''  .....'')] \<and>
   4 \<le> length failing_argv \<and> \<not> succeeded sample_env failing_argv [1, 0] \<and>
   writes (run sample_env failing_argv [1, 0]) = []"
proof -
  have s: "succeeded sample_env sample_argv [1, 0]"
    by (simp add: succeeded_def sample_consts sample_extract sample_interpreter)
  have f: "\<not> succeeded sample_env failing_argv [1, 0]"
    by (simp add: succeeded_def sample_consts sample_extract)
  have l: "4 \<le> length sample_argv" "4 \<le> length failing_argv"
    by (simp_all add: sample_argv_def failing_argv_def)
  have d: "writes (run sample_env sample_argv [1, 0]) = [(sample_argv ! 2, ''  .....'')]"
    unfolding sample_run_10 by (simp add: sample_argv_def)
  from one_output_file [OF l(2), of sample_env "[1, 0]"] f
  have "writes (run sample_env failing_argv [1, 0]) = []" by blast
  with one_output_file [OF l(1), of sample_env "[1, 0]"] s f l d show ?thesis by blast
qed

text \<open>
  Claim C9. When every extraction has been fulfilled, the interpreter is called once,
  with the array of the payloads and the preset geojson; when its promise is fulfilled
  with a track, the file written holds \<^verbatim>\<open>JSON.stringify(telemetry, null, 2)\<close>, the
  serialization with an indentation of 2, and nothing else is written.
\<close>

theorem payloads_interpreted_and_written:
  assumes "4 \<le> length argv"
    and "map (\<lambda>file. gpmfExtract env (bufferAppender file)) (files argv) =
         map (\<lambda>p. Returns (Fulfilled p)) payloads"
    and "\<forall>i<length payloads. i \<in> set order"
  shows "interpreter_calls (run env argv order) = [(payloads, \<lparr>preset = ''geojson''\<rparr>)] \<and>
         writes (run env argv order) =
           (case goproTelemetry env payloads \<lparr>preset = ''geojson''\<rparr> of
              Some (Fulfilled telemetry) \<Rightarrow>
                [(geojsonOutFile argv, JSON_stringify env telemetry None 2)]
            | _ \<Rightarrow> [])"
  unfolding run_all_fulfilled [OF assms] by (simp add: then_extracted_effects)

theorem payloads_interpreted_and_written_witness:
  "4 \<le> length sample_argv \<and>
   map (\<lambda>file. gpmfExtract sample_env (bufferAppender file)) (files sample_argv) =
     map (\<lambda>p. Returns (Fulfilled p)) [3, 2] \<and>
   0 \<in> set [1, 0 :: nat] \<and> 1 \<in> set [1, 0 :: nat] \<and>
   interpreter_calls (run sample_env sample_argv [1, 0]) = [([3, 2], \<lparr>preset = ''geojson''\<rparr>)] \<and>
   writes (run sample_env sample_argv [1, 0]) =
     [(''0001.geojson'', JSON_stringify sample_env 5 None 2)] \<and>
   JSON_stringify sample_env 5 None 2 = ''  .....''"
proof -
  have l: "4 \<le> length sample_argv"
    by (simp add: sample_argv_def)
  have m: "map (\<lambda>file. gpmfExtract sample_env (bufferAppender file)) (files sample_argv) =
     map (\<lambda>p. Returns (Fulfilled p)) [3, 2]"
    by (simp add: sample_consts sample_extract)
  have o: "\<forall>i<length [3, 2 :: nat]. i \<in> set [1, 0]"
    by (simp add: less_Suc_eq)
  from payloads_interpreted_and_written [OF l m o] l m show ?thesis
    by (simp add: sample_interpreter sample_consts replicate_5)
qed

text \<open>
  Claim C10. When no call of the decoder throws, the array \<^verbatim>\<open>promises\<close> holds
  exactly the promises of the input files, one per file and in the order of the command
  line; and every array \<^verbatim>\<open>extracted\<close> handed to the interpreter has the length of the
  file list, its \<open>i\<close>-th entry being the payload of the \<open>i\<close>-th file.
\<close>

theorem one_promise_per_file:
  assumes "4 \<le> length argv"
    and "\<forall>file\<in>set (files argv). \<exists>p. gpmfExtract env (bufferAppender file) = Returns p"
  shows "map Returns (promises (run env argv order)) =
           map (\<lambda>file. gpmfExtract env (bufferAppender file)) (files argv) \<and>
         (\<forall>(extracted, opts)\<in>set (interpreter_calls (run env argv order)).
            length extracted = length (files argv) \<and>
            (\<forall>i<length (files argv).
               gpmfExtract env (bufferAppender (files argv ! i)) =
                 Returns (Fulfilled (extracted ! i))))"
proof -
  from push_promises_total [OF assms(2)] obtain ps where
    ps: "push_promises env (files argv) [] = Returns ps" by blast
  note inv = run_Returns [OF assms(1) ps]
  have a: "map Returns (promises (run env argv order)) =
           map (\<lambda>file. gpmfExtract env (bufferAppender file)) (files argv)"
    using joint_inv_promises [OF inv] push_promises_start(1) [OF ps] by simp
  have b: "length extracted = length (files argv) \<and>
      (\<forall>i<length (files argv).
         gpmfExtract env (bufferAppender (files argv ! i)) = Returns (Fulfilled (extracted ! i)))"
    if "(extracted, opts) \<in> set (interpreter_calls (run env argv order))" for extracted opts
  proof -
    from that have "interpreter_calls (run env argv order) \<noteq> [] \<or> writes (run env argv order) \<noteq> []"
      by auto
    with inv obtain vs where len: "length vs = length ps"
      and vs: "\<And>j. j < length ps \<Longrightarrow> j \<in> set order \<and> ps ! j = Fulfilled (vs ! j)"
      and w: "run env argv order = then_extracted env argv vs
               (initial\<lparr>promises := ps, all_values := map Some vs,
                  all_state := Some (Fulfilled vs)\<rparr>)"
      by (rule joint_inv_effects) blast
    from arg_cong [OF w, of interpreter_calls] that have "extracted = vs"
      by (simp add: then_extracted_effects)
    with len vs push_promises_start(2) [OF ps] push_promises_nth [OF ps] show ?thesis
      by simp
  qed
  from a b show ?thesis by blast
qed

theorem one_promise_per_file_witness:
  "4 \<le> length sample_argv \<and>
   gpmfExtract sample_env (bufferAppender ''GX010001.MP4'') = Returns (Fulfilled 3) \<and>
   gpmfExtract sample_env (bufferAppender ''GX020001.MP4'') = Returns (Fulfilled 2) \<and>
   files sample_argv = [''GX010001.MP4'', ''GX020001.MP4''] \<and>
   map Returns (promises (run sample_env sample_argv [1, 0])) =
     [Returns (Fulfilled 3), Returns (Fulfilled 2)] \<and>
   interpreter_calls (run sample_env sample_argv [1, 0]) = [([3, 2], \<lparr>preset = ''geojson''\<rparr>)]"
proof -
  have l: "4 \<le> length sample_argv"
    by (simp add: sample_argv_def)
  have t: "\<forall>file\<in>set (files sample_argv).
      \<exists>p. gpmfExtract sample_env (bufferAppender file) = Returns p"
    by (simp add: sample_consts sample_extract)
  have c: "interpreter_calls (run sample_env sample_argv [1, 0]) = [([3, 2], \<lparr>preset = ''geojson''\<rparr>)]"
    unfolding sample_run_10 by simp
  from one_promise_per_file [OF l t, of "[1, 0]"] l c show ?thesis
    by (simp add: sample_consts sample_extract)
qed

end
